theory Spec2Isabelle
  imports Main "HOL-Library.Multiset" "HOL-Library.Sublist"
begin

section \<open>The condition LCO of hpx/lcos/condition.hpp\<close>

text \<open>
  The header declares two classes named \<open>condition\<close>: the component
  \<open>hpx::lcos::detail::condition\<close>, which owns the queue of waiting threads, and the
  handle \<open>hpx::lcos::condition\<close>, which forwards to it through \<open>impl_\<close>. The
  operations of the first carry the prefix \<open>detail_\<close> here, those of the second the
  prefix \<open>condition_\<close>.
\<close>

subsection \<open>Collaborators: thread ids, thread states, the fifo, the scheduler\<close>

text \<open>
  \<open>thread_id_type\<close> is declared outside the header. The code initialises a variable of
  that type with the literal \<open>0\<close> and otherwise only stores and passes ids on, so a natural
  number stands for it.
\<close>

type_synonym thread_id_type = nat

text \<open>
  The enumeration \<open>threads::thread_state\<close> is declared outside the header, which uses
  two of its enumerators: \<open>pending\<close> (runnable) and \<open>suspended\<close>.
\<close>

datatype thread_state = pending | suspended

text \<open>
  \<open>threads::thread_self\<close> is the handle of the calling thread; the header asks it for
  the thread's id (\<open>self.get_thread_id()\<close>) and yields through it.
\<close>

record thread_self =
  get_thread_id :: thread_id_type

text \<open>
  \<open>boost::lockfree::fifo\<close> is a library class outside the header: a first-in first-out
  queue whose operations are atomic, which is the contract the spec gives for its
  WaitQueue. Its contents are a list, oldest entry first. \<open>enqueue\<close> appends at the back.
  \<open>dequeue(&ret)\<close> returns \<open>false\<close> on the empty queue and leaves \<open>*ret\<close> alone;
  otherwise it removes the front entry, stores it in \<open>*ret\<close> and returns \<open>true\<close>. The
  model takes the old value of \<open>*ret\<close> and returns the flag, the new value of \<open>*ret\<close>
  and the new contents.
\<close>

type_synonym fifo = "thread_id_type list"

definition enqueue :: "thread_id_type \<Rightarrow> fifo \<Rightarrow> fifo" where
  "enqueue t q = q @ [t]"

definition dequeue :: "thread_id_type \<Rightarrow> fifo \<Rightarrow> bool \<times> thread_id_type \<times> fifo" where
  "dequeue ret q = (case q of [] \<Rightarrow> (False, ret, []) | x # xs \<Rightarrow> (True, x, xs))"

text \<open>
  The scheduler is not part of the header. The condition only asks it for state
  transitions, so the scheduler is modelled by the sequence of requests it has received,
  oldest first: \<open>self.yield(st)\<close> by the thread \<open>self\<close>, and
  \<open>threads::set_state(self, id, st)\<close> by the thread \<open>self\<close> for the thread \<open>id\<close>.
\<close>

datatype sched_call =
    Yield thread_self thread_state
  | Set_state thread_self thread_id_type thread_state

type_synonym scheduler = "sched_call list"

definition yield :: "thread_self \<Rightarrow> thread_state \<Rightarrow> scheduler \<Rightarrow> scheduler" where
  "yield self st sched = sched @ [Yield self st]"

definition set_state ::
  "thread_self \<Rightarrow> thread_id_type \<Rightarrow> thread_state \<Rightarrow> scheduler \<Rightarrow> scheduler" where
  "set_state self t st sched = sched @ [Set_state self t st]"

text \<open>The threads the scheduler was asked to make runnable, in the order of the requests.\<close>

fun woken :: "scheduler \<Rightarrow> thread_id_type list" where
  "woken [] = []"
| "woken (Set_state self t pending # cs) = t # woken cs"
| "woken (c # cs) = woken cs"

subsection \<open>The component \<open>hpx::lcos::detail::condition\<close>\<close>

text \<open>
  The one data member is \<open>queue_\<close>; an Isabelle name cannot end in an underscore, so the
  field is \<open>queue\<close>.
\<close>

record detail_condition =
  queue :: fifo

text \<open>The constructor has an empty body: the queue is default-constructed, empty.\<close>

definition detail_condition_init :: detail_condition where
  "detail_condition_init = \<lparr>queue = []\<rparr>"

text \<open>
  Every member function works on the component and on the scheduler, and returns both.
  The local variable \<open>id\<close> of \<open>notify_one\<close> and \<open>notify_all\<close> is \<open>ident\<close> here.
\<close>

type_synonym world = "detail_condition \<times> scheduler"

fun detail_wait :: "thread_self \<Rightarrow> world \<Rightarrow> world" where
  "detail_wait self (c, sched) =
     (let c1 = c\<lparr>queue := enqueue (get_thread_id self) (queue c)\<rparr>;
          sched1 = yield self suspended sched
      in (c1, sched1))"

fun detail_notify_one :: "thread_self \<Rightarrow> world \<Rightarrow> world" where
  "detail_notify_one self (c, sched) =
     (let ident = (0 :: thread_id_type);
          (ok, ident1, q1) = dequeue ident (queue c);
          c1 = c\<lparr>queue := q1\<rparr>
      in if ok then (c1, set_state self ident1 pending sched) else (c1, sched))"

text \<open>
  The loop of \<open>notify_all\<close>: \<open>while (queue_.dequeue(&id)) threads::set_state(self, id,
  threads::pending);\<close>. The variable \<open>id\<close> lives across the iterations, so the loop
  function carries it. Each call of \<open>notify_all_loop\<close> evaluates the loop condition once.
\<close>

function notify_all_loop :: "thread_self \<Rightarrow> thread_id_type \<Rightarrow> world \<Rightarrow> world" where
  "notify_all_loop self ident (c, sched) =
     (let (ok, ident1, q1) = dequeue ident (queue c);
          c1 = c\<lparr>queue := q1\<rparr>
      in if ok then notify_all_loop self ident1 (c1, set_state self ident1 pending sched)
         else (c1, sched))"
  by pat_completeness auto
termination
  by (relation "measure (\<lambda>(self, ident, c, sched). length (queue c))")
     (auto simp: dequeue_def split: list.splits)

fun detail_notify_all :: "thread_self \<Rightarrow> world \<Rightarrow> world" where
  "detail_notify_all self (c, sched) =
     (let ident = (0 :: thread_id_type) in notify_all_loop self ident (c, sched))"

text \<open>
  The number of times the loop of \<open>notify_all\<close> runs its body: the same recursion as
  \<open>notify_all_loop\<close>, counting one for every evaluation of the condition that succeeds.
\<close>

function notify_all_iterations :: "thread_self \<Rightarrow> thread_id_type \<Rightarrow> world \<Rightarrow> nat" where
  "notify_all_iterations self ident (c, sched) =
     (let (ok, ident1, q1) = dequeue ident (queue c);
          c1 = c\<lparr>queue := q1\<rparr>
      in if ok then Suc (notify_all_iterations self ident1
                           (c1, set_state self ident1 pending sched))
         else 0)"
  by pat_completeness auto
termination
  by (relation "measure (\<lambda>(self, ident, c, sched). length (queue c))")
     (auto simp: dequeue_def split: list.splits)



text \<open>
  \<open>hpx::error\<close> is an enumeration of error codes declared outside the header; an integer
  stands for its value.
\<close>

type_synonym hpx_error = int

datatype hpx_exception = Hpx_exception hpx_error string

text \<open>
  Modelled from the spec: the macro \<open>HPX_THROW_EXCEPTION\<close> is not defined in the header.
  The spec describes it as an unconditional, synchronous fault carrying a code and a
  message, raised to the caller. The outcome of a call that may throw is a sum, the
  exception on the left.
\<close>

definition HPX_THROW_EXCEPTION :: "hpx_error \<Rightarrow> string \<Rightarrow> hpx_exception + thread_state" where
  "HPX_THROW_EXCEPTION code msg = Inl (Hpx_exception code msg)"

text \<open>
  The body of \<open>set_error\<close> is the throw alone. The component outlives the exception, so
  the model returns the outcome together with the component and the scheduler. (In the
  header the comma before the parameter \<open>hpx::error code\<close> is missing; the parameters
  are taken as \<open>self\<close>, the unnamed applier, \<open>code\<close> and \<open>msg\<close>.)
\<close>

fun detail_set_error ::
  "thread_self \<Rightarrow> hpx_error \<Rightarrow> string \<Rightarrow> world \<Rightarrow> (hpx_exception + thread_state) \<times> world" where
  "detail_set_error self code msg (c, sched) = (HPX_THROW_EXCEPTION code msg, (c, sched))"

subsection \<open>The handle \<open>hpx::lcos::condition\<close>\<close>

text \<open>
  The handle owns one component through the pointer \<open>impl_\<close> (field \<open>impl\<close> here) and
  forwards every call to it. Its constructor allocates a fresh component.
\<close>

record condition =
  impl :: detail_condition

definition condition_init :: condition where
  "condition_init = \<lparr>impl = detail_condition_init\<rparr>"

fun condition_wait :: "thread_self \<Rightarrow> condition \<times> scheduler \<Rightarrow> condition \<times> scheduler" where
  "condition_wait self (cv, sched) =
     (let (c1, sched1) = detail_wait self (impl cv, sched) in (cv\<lparr>impl := c1\<rparr>, sched1))"

fun condition_notify_one ::
  "thread_self \<Rightarrow> condition \<times> scheduler \<Rightarrow> condition \<times> scheduler" where
  "condition_notify_one self (cv, sched) =
     (let (c1, sched1) = detail_notify_one self (impl cv, sched) in (cv\<lparr>impl := c1\<rparr>, sched1))"

text \<open>The body of the handle's \<open>notify_all\<close> is \<open>impl_->notify_one(self);\<close>.\<close>

fun condition_notify_all ::
  "thread_self \<Rightarrow> condition \<times> scheduler \<Rightarrow> condition \<times> scheduler" where
  "condition_notify_all self (cv, sched) =
     (let (c1, sched1) = detail_notify_one self (impl cv, sched) in (cv\<lparr>impl := c1\<rparr>, sched1))"

subsection \<open>Sequences of calls under the scheduler's contract\<close>

text \<open>
  A call of one of the three operations of the component, by the thread \<open>self\<close>.
\<close>

datatype call = Wait thread_self | Notify_one thread_self | Notify_all thread_self

fun caller :: "call \<Rightarrow> thread_self" where
  "caller (Wait self) = self"
| "caller (Notify_one self) = self"
| "caller (Notify_all self) = self"

fun perform :: "call \<Rightarrow> world \<Rightarrow> world" where
  "perform (Wait self) w = detail_wait self w"
| "perform (Notify_one self) w = detail_notify_one self w"
| "perform (Notify_all self) w = detail_notify_all self w"

text \<open>
  Modelled from the spec: the scheduler's bookkeeping is not in the header. The spec gives
  its contract: \<open>suspend(token)\<close> returns control to the caller only once the token's state
  has been set runnable, and \<open>setRunnable(token)\<close> makes the referenced task runnable. So
  a thread is suspended from its request to be suspended until the next request that makes
  it runnable, and a suspended thread makes no call.
\<close>

fun request :: "sched_call \<Rightarrow> thread_id_type set \<Rightarrow> thread_id_type set" where
  "request (Yield self st) S =
     (if st = suspended then insert (get_thread_id self) S else S - {get_thread_id self})"
| "request (Set_state self t st) S = (if st = suspended then insert t S else S - {t})"

definition suspended_threads :: "scheduler \<Rightarrow> thread_id_type set" where
  "suspended_threads sched = fold request sched {}"

text \<open>
  A sequence of calls, each run to its end before the next starts. The result is \<open>None\<close>
  when the sequence asks a suspended thread to make a call, which the scheduler excludes.
\<close>

fun run_calls :: "call list \<Rightarrow> world \<Rightarrow> world option" where
  "run_calls [] w = Some w"
| "run_calls (k # ks) (c, sched) =
     (if get_thread_id (caller k) \<in> suspended_threads sched then None
      else run_calls ks (perform k (c, sched)))"

subsection \<open>Interleaved calls\<close>

text \<open>
  The operations of the fifo and the requests to the scheduler are the atomic steps of a
  call. A thread in the middle of a call is at one of the following points, named after the
  statement it executes next; the points of \<open>notify_one\<close> and \<open>notify_all\<close> after a
  successful \<open>dequeue\<close> hold the id that was dequeued, and the loop of \<open>notify_all\<close>
  holds the current value of its variable \<open>id\<close>.
\<close>

datatype thread =
    Wait_enqueue thread_self
  | Wait_yield thread_self
  | Wait_yielded thread_self
  | Notify_one_dequeue thread_self
  | Notify_one_set_state thread_self thread_id_type
  | Notify_one_return thread_self
  | Notify_all_dequeue thread_self thread_id_type
  | Notify_all_set_state thread_self thread_id_type
  | Notify_all_return thread_self

fun start :: "call \<Rightarrow> thread" where
  "start (Wait self) = Wait_enqueue self"
| "start (Notify_one self) = Notify_one_dequeue self"
| "start (Notify_all self) = Notify_all_dequeue self 0"

fun step :: "thread \<Rightarrow> world \<Rightarrow> thread \<times> world" where
  "step (Wait_enqueue self) (c, sched) =
     (Wait_yield self, (c\<lparr>queue := enqueue (get_thread_id self) (queue c)\<rparr>, sched))"
| "step (Wait_yield self) (c, sched) =
     (Wait_yielded self, (c, yield self suspended sched))"
| "step (Wait_yielded self) w = (Wait_yielded self, w)"
| "step (Notify_one_dequeue self) (c, sched) =
     (let (ok, ident1, q1) = dequeue 0 (queue c)
      in (if ok then Notify_one_set_state self ident1 else Notify_one_return self,
          (c\<lparr>queue := q1\<rparr>, sched)))"
| "step (Notify_one_set_state self ident) (c, sched) =
     (Notify_one_return self, (c, set_state self ident pending sched))"
| "step (Notify_one_return self) w = (Notify_one_return self, w)"
| "step (Notify_all_dequeue self ident) (c, sched) =
     (let (ok, ident1, q1) = dequeue ident (queue c)
      in (if ok then Notify_all_set_state self ident1 else Notify_all_return self,
          (c\<lparr>queue := q1\<rparr>, sched)))"
| "step (Notify_all_set_state self ident) (c, sched) =
     (Notify_all_dequeue self ident, (c, set_state self ident pending sched))"
| "step (Notify_all_return self) w = (Notify_all_return self, w)"

text \<open>\<open>steps n t w\<close>: the thread \<open>t\<close> takes \<open>n\<close> steps with no other thread in between.\<close>

fun steps :: "nat \<Rightarrow> thread \<Rightarrow> world \<Rightarrow> thread \<times> world" where
  "steps 0 t w = (t, w)"
| "steps (Suc n) t w = (let (t1, w1) = step t w in steps n t1 w1)"

text \<open>
  A pool of threads shares one component and one scheduler. A schedule is the list of the
  indices of the threads that take the next step, in order; an index outside the pool
  changes nothing.
\<close>

type_synonym pool = "thread list \<times> world"

fun pool_step :: "nat \<Rightarrow> pool \<Rightarrow> pool" where
  "pool_step i (ts, w) =
     (if i < length ts then (let (t1, w1) = step (ts ! i) w in (ts[i := t1], w1))
      else (ts, w))"

fun run :: "nat list \<Rightarrow> pool \<Rightarrow> pool" where
  "run [] p = p"
| "run (i # sch) p = run sch (pool_step i p)"

text \<open>The pool of a list of calls that have not started, on a fresh component.\<close>

definition spawn :: "call list \<Rightarrow> pool" where
  "spawn calls = (map start calls, (detail_condition_init, []))"

text \<open>
  What a pool says about the tokens: \<open>enqueued\<close> are the ids of the threads whose
  \<open>wait\<close> has executed its \<open>enqueue\<close>, \<open>in_flight\<close> the ids that a notifier has
  dequeued and not yet passed to \<open>set_state\<close>.
\<close>

fun enqueued_by :: "thread \<Rightarrow> thread_id_type list" where
  "enqueued_by (Wait_yield self) = [get_thread_id self]"
| "enqueued_by (Wait_yielded self) = [get_thread_id self]"
| "enqueued_by t = []"

fun in_flight_of :: "thread \<Rightarrow> thread_id_type list" where
  "in_flight_of (Notify_one_set_state self ident) = [ident]"
| "in_flight_of (Notify_all_set_state self ident) = [ident]"
| "in_flight_of t = []"

definition enqueued :: "thread list \<Rightarrow> thread_id_type list" where
  "enqueued ts = concat (map enqueued_by ts)"

definition in_flight :: "thread list \<Rightarrow> thread_id_type list" where
  "in_flight ts = concat (map in_flight_of ts)"

text \<open>
  \<open>waiting_of\<close> is the id of the thread when the call it is in is a \<open>wait\<close>, and
  \<open>yielded_by\<close> its id when that \<open>wait\<close> has made its request to be suspended.
  \<open>suspensions\<close> are the ids of the threads that have asked the scheduler to be
  suspended, in the order of the requests.
\<close>

fun waiting_of :: "thread \<Rightarrow> thread_id_type list" where
  "waiting_of (Wait_enqueue self) = [get_thread_id self]"
| "waiting_of (Wait_yield self) = [get_thread_id self]"
| "waiting_of (Wait_yielded self) = [get_thread_id self]"
| "waiting_of t = []"

fun yielded_by :: "thread \<Rightarrow> thread_id_type list" where
  "yielded_by (Wait_yielded self) = [get_thread_id self]"
| "yielded_by t = []"

definition yielded :: "thread list \<Rightarrow> thread_id_type list" where
  "yielded ts = concat (map yielded_by ts)"

fun suspensions :: "scheduler \<Rightarrow> thread_id_type list" where
  "suspensions [] = []"
| "suspensions (Yield self suspended # cs) = get_thread_id self # suspensions cs"
| "suspensions (c # cs) = suspensions cs"








text \<open>The ids of the threads that call \<open>wait\<close> in a list of calls.\<close>

fun waiters :: "call list \<Rightarrow> thread_id_type list" where
  "waiters [] = []"
| "waiters (Wait self # ks) = get_thread_id self # waiters ks"
| "waiters (k # ks) = waiters ks"

section \<open>Properties\<close>

declare notify_all_loop.simps [simp del] notify_all_iterations.simps [simp del]

subsection \<open>The fifo, the scheduler's record, the loop\<close>

lemma enqueue_back [simp]: "enqueue t q = q @ [t]"
  by (simp add: enqueue_def)

lemma dequeue_Nil [simp]: "dequeue ret [] = (False, ret, [])"
  by (simp add: dequeue_def)

lemma dequeue_Cons [simp]: "dequeue ret (x # xs) = (True, x, xs)"
  by (simp add: dequeue_def)

lemma woken_append [simp]: "woken (cs @ ds) = woken cs @ woken ds"
  by (induction cs rule: woken.induct) simp_all

lemma woken_map_pending [simp]: "woken (map (\<lambda>t. Set_state self t pending) q) = q"
  by (induction q) simp_all

lemma notify_all_loop_Nil:
  "queue c = [] \<Longrightarrow> notify_all_loop self ident (c, sched) = (c, sched)"
  by (subst notify_all_loop.simps) simp

lemma notify_all_loop_Cons:
  "queue c = x # xs \<Longrightarrow>
   notify_all_loop self ident (c, sched) =
     notify_all_loop self x (c\<lparr>queue := xs\<rparr>, sched @ [Set_state self x pending])"
  by (subst notify_all_loop.simps) (simp add: set_state_def)

text \<open>
  The loop empties the queue and asks the scheduler to make every queued thread runnable,
  oldest first. The induction is on the contents of the queue, with the component, the
  scheduler and the loop variable generalised.
\<close>

lemma notify_all_loop_eq:
  "notify_all_loop self ident (c, sched) =
     (c\<lparr>queue := []\<rparr>, sched @ map (\<lambda>t. Set_state self t pending) (queue c))"
proof (induction "queue c" arbitrary: c sched ident)
  case Nil
  then show ?case by (simp add: notify_all_loop_Nil [OF Nil.hyps [symmetric]])
next
  case (Cons x xs)
  have q: "queue c = x # xs" using Cons.hyps(2) by simp
  have "xs = queue (c\<lparr>queue := xs\<rparr>)" by simp
  from Cons.hyps(1) [OF this] show ?case
    by (simp add: notify_all_loop_Cons [OF q] q)
qed


lemma detail_notify_all_eq:
  "detail_notify_all self (c, sched) =
     (c\<lparr>queue := []\<rparr>, sched @ map (\<lambda>t. Set_state self t pending) (queue c))"
  by (simp add: notify_all_loop_eq)

subsection \<open>The handle's \<open>notify_all\<close>\<close>

text \<open>
  Claim C1 says that \<open>notify_all\<close> of the handle \<open>hpx::lcos::condition\<close> makes every
  queued thread runnable, oldest first, and leaves the queue empty: after the waits of the
  threads 1, 2 and 3, one \<open>notify_all\<close> wakes 1, 2 and 3. The handle's \<open>notify_all\<close>
  calls \<open>notify_one\<close> of the component, so on that input (the notifier is thread 4) the
  scheduler is asked to make thread 1 runnable and no other, and 2 and 3 stay queued. The
  component's own \<open>notify_all\<close> does what the claim says (\<open>detail_notify_all_eq\<close>).
\<close>

theorem condition_notify_all_wakes_one:
  "condition_notify_all \<lparr>get_thread_id = 4\<rparr>
     (condition_wait \<lparr>get_thread_id = 3\<rparr>
       (condition_wait \<lparr>get_thread_id = 2\<rparr>
         (condition_wait \<lparr>get_thread_id = 1\<rparr> (condition_init, [])))) =
   (\<lparr>impl = \<lparr>queue = [2, 3]\<rparr>\<rparr>,
    [Yield \<lparr>get_thread_id = 1\<rparr> suspended, Yield \<lparr>get_thread_id = 2\<rparr> suspended,
     Yield \<lparr>get_thread_id = 3\<rparr> suspended,
     Set_state \<lparr>get_thread_id = 4\<rparr> 1 pending])"
  by (simp add: condition_init_def detail_condition_init_def yield_def set_state_def)

subsection \<open>\<open>notify_one\<close>\<close>

text \<open>
  Claim C3: \<open>notify_one\<close> dequeues and wakes the thread that has waited longest. On a queue
  whose oldest entry is \<open>x\<close> it removes \<open>x\<close> and asks the scheduler to make \<open>x\<close>
  runnable, and \<open>wait\<close> puts the caller behind every thread already queued. After the
  waits of \<open>a\<close>, \<open>b\<close> and \<open>c3\<close> on a fresh component, the first \<open>notify_one\<close> wakes
  \<open>a\<close> and leaves \<open>[b, c3]\<close>, the second wakes \<open>b\<close> and leaves \<open>[c3]\<close>.
\<close>

theorem detail_notify_one_fifo:
  "detail_notify_one self (c\<lparr>queue := x # xs\<rparr>, sched) =
     (c\<lparr>queue := xs\<rparr>, sched @ [Set_state self x pending])
   \<and> queue (fst (detail_wait a (c, sched))) = queue c @ [get_thread_id a]
   \<and> detail_notify_one self
        (detail_wait c3 (detail_wait b (detail_wait a (detail_condition_init, [])))) =
      (\<lparr>queue = [get_thread_id b, get_thread_id c3]\<rparr>,
       [Yield a suspended, Yield b suspended, Yield c3 suspended,
        Set_state self (get_thread_id a) pending])
   \<and> detail_notify_one self' (detail_notify_one self
        (detail_wait c3 (detail_wait b (detail_wait a (detail_condition_init, []))))) =
      (\<lparr>queue = [get_thread_id c3]\<rparr>,
       [Yield a suspended, Yield b suspended, Yield c3 suspended,
        Set_state self (get_thread_id a) pending, Set_state self' (get_thread_id b) pending])"
  by (simp add: detail_condition_init_def yield_def set_state_def)

text \<open>
  Claim C4: on an empty queue \<open>notify_one\<close> changes nothing. The queue stays empty, the
  scheduler receives no request, and the call has no outcome other than its return.
\<close>

theorem detail_notify_one_empty:
  "detail_notify_one self (c\<lparr>queue := []\<rparr>, sched) = (c\<lparr>queue := []\<rparr>, sched)
   \<and> detail_notify_one self (detail_condition_init, sched) = (detail_condition_init, sched)"
  by (simp add: detail_condition_init_def)

subsection \<open>The LCO actions\<close>

text \<open>
  Claim C8: for every error code and message \<open>set_error\<close> throws, whatever the queue
  holds, and leaves the component and the scheduler as they were: nothing is enqueued,
  dequeued or woken.
\<close>

theorem detail_set_error_throws:
  "detail_set_error self code msg (c, sched) = (Inl (Hpx_exception code msg), (c, sched))"
  by (simp add: HPX_THROW_EXCEPTION_def)


subsection \<open>The loop of the component's \<open>notify_all\<close>\<close>














subsection \<open>The steps of a call and the call as a whole\<close>

text \<open>
  A thread that takes its steps with no other thread in between does what the member
  function does: two steps for \<open>notify_one\<close> (the second changes nothing when the queue
  was empty), and two steps for every queued thread plus the last, failing \<open>dequeue\<close> for
  \<open>notify_all\<close>.
\<close>

lemma steps_notify_one:
  "steps 2 (start (Notify_one self)) (c, sched) =
     (Notify_one_return self, detail_notify_one self (c, sched))"
  by (cases "queue c") (simp_all add: numeral_2_eq_2)

lemma steps_notify_all_loop:
  "steps (2 * length (queue c) + 1) (Notify_all_dequeue self ident) (c, sched) =
     (Notify_all_return self, notify_all_loop self ident (c, sched))"
proof (induction "queue c" arbitrary: c sched ident)
  case Nil
  have q: "queue c = []" using Nil by simp
  show ?case by (simp add: q notify_all_loop_Nil [OF q])
next
  case (Cons x xs)
  have q: "queue c = x # xs" using Cons.hyps(2) by simp
  have "xs = queue (c\<lparr>queue := xs\<rparr>)" by simp
  from Cons.hyps(1) [OF this, of x "sched @ [Set_state self x pending]"] show ?case
    by (simp add: q notify_all_loop_Cons [OF q] set_state_def)
qed

lemma steps_notify_all:
  "steps (2 * length (queue c) + 1) (start (Notify_all self)) (c, sched) =
     (Notify_all_return self, detail_notify_all self (c, sched))"
  using steps_notify_all_loop [of c self 0 sched] by simp

subsection \<open>Tokens in a pool of interleaved calls\<close>

text \<open>
  Every step of a thread moves at most one token: from the thread into the queue
  (\<open>enqueue\<close>), from the queue into the hands of the notifier (\<open>dequeue\<close>), or from the
  notifier to the scheduler (\<open>set_state\<close>). So the tokens woken, in flight and queued are
  together the tokens enqueued, as multisets, in every pool that starts on a fresh
  component; and the requests to be suspended are those of the threads past their
  \<open>yield\<close>.
\<close>

lemma suspensions_append [simp]: "suspensions (cs @ ds) = suspensions cs @ suspensions ds"
  by (induction cs rule: suspensions.induct) simp_all

lemma mset_concat_map_update:
  "i < length ts \<Longrightarrow>
   mset (concat (map f (ts[i := t]))) + mset (f (ts ! i)) = mset (concat (map f ts)) + mset (f t)"
proof (induction ts arbitrary: i)
  case Nil
  then show ?case by simp
next
  case (Cons u us)
  show ?case
  proof (cases i)
    case 0
    then show ?thesis by simp
  next
    case (Suc j)
    with Cons.prems have "j < length us" by simp
    from Cons.IH [OF this] Suc show ?thesis by simp
  qed
qed

lemma step_tokens:
  "step t (c, sched) = (t1, (c1, sched1)) \<Longrightarrow>
   mset (woken sched1) + mset (in_flight_of t1) + mset (queue c1) + mset (enqueued_by t) =
   mset (woken sched) + mset (in_flight_of t) + mset (queue c) + mset (enqueued_by t1)"
  by (cases t; cases "queue c") (auto simp: yield_def set_state_def)

lemma step_suspensions:
  "step t (c, sched) = (t1, (c1, sched1)) \<Longrightarrow>
   mset (suspensions sched1) + mset (yielded_by t) = mset (suspensions sched) + mset (yielded_by t1)"
  by (cases t; cases "queue c") (auto simp: yield_def set_state_def)

lemma step_waiting_of: "waiting_of (fst (step t w)) = waiting_of t"
  by (cases t; cases w; cases "queue (fst w)") (auto)

lemma step_sched_grows: "\<exists>ds. snd (snd (step t (c, sched))) = sched @ ds"
  by (cases t; cases "queue c") (auto simp: yield_def set_state_def)

lemma enqueued_by_waiting: "mset (enqueued_by t) \<subseteq># mset (waiting_of t)"
  by (cases t) auto

lemma yielded_by_enqueued: "mset (yielded_by t) \<subseteq># mset (enqueued_by t)"
  by (cases t) auto

lemma pool_step_tokens:
  assumes inv: "mset (woken sched) + mset (in_flight ts) + mset (queue c) = mset (enqueued ts)"
    and st: "pool_step i (ts, (c, sched)) = (ts1, (c1, sched1))"
  shows "mset (woken sched1) + mset (in_flight ts1) + mset (queue c1) = mset (enqueued ts1)"
proof (cases "i < length ts")
  case False
  with st inv show ?thesis by simp
next
  case True
  obtain t1 where s1: "step (ts ! i) (c, sched) = (t1, (c1, sched1))" and ts1: "ts1 = ts[i := t1]"
    using st True by (auto split: prod.splits)
  have a: "mset (in_flight ts1) + mset (in_flight_of (ts ! i)) =
           mset (in_flight ts) + mset (in_flight_of t1)"
    unfolding in_flight_def ts1 by (rule mset_concat_map_update [OF True])
  have b: "mset (enqueued ts1) + mset (enqueued_by (ts ! i)) =
           mset (enqueued ts) + mset (enqueued_by t1)"
    unfolding enqueued_def ts1 by (rule mset_concat_map_update [OF True])
  note d = step_tokens [OF s1]
  show ?thesis
  proof (rule multiset_eqI)
    fix x
    from a have a': "count (mset (in_flight ts1)) x + count (mset (in_flight_of (ts ! i))) x =
      count (mset (in_flight ts)) x + count (mset (in_flight_of t1)) x"
      by (metis count_union)
    from b have b': "count (mset (enqueued ts1)) x + count (mset (enqueued_by (ts ! i))) x =
      count (mset (enqueued ts)) x + count (mset (enqueued_by t1)) x"
      by (metis count_union)
    from d have d': "count (mset (woken sched1)) x + count (mset (in_flight_of t1)) x
        + count (mset (queue c1)) x + count (mset (enqueued_by (ts ! i))) x =
      count (mset (woken sched)) x + count (mset (in_flight_of (ts ! i))) x
        + count (mset (queue c)) x + count (mset (enqueued_by t1)) x"
      by (metis count_union)
    from inv have i': "count (mset (woken sched)) x + count (mset (in_flight ts)) x
        + count (mset (queue c)) x = count (mset (enqueued ts)) x"
      by (metis count_union)
    from a' b' d' i' show "count (mset (woken sched1) + mset (in_flight ts1) + mset (queue c1)) x
        = count (mset (enqueued ts1)) x"
      by simp
  qed
qed

lemma run_tokens:
  "mset (woken sched) + mset (in_flight ts) + mset (queue c) = mset (enqueued ts) \<Longrightarrow>
   run sch (ts, (c, sched)) = (ts1, (c1, sched1)) \<Longrightarrow>
   mset (woken sched1) + mset (in_flight ts1) + mset (queue c1) = mset (enqueued ts1)"
proof (induction sch arbitrary: ts c sched)
  case Nil
  then show ?case by simp
next
  case (Cons i sch)
  obtain ts' c' sched' where p: "pool_step i (ts, (c, sched)) = (ts', (c', sched'))"
    by (metis prod.exhaust)
  from pool_step_tokens [OF Cons.prems(1) p] Cons.IH [of sched' ts' c'] Cons.prems(2) p
  show ?case by simp
qed

lemma pool_step_suspensions:
  assumes inv: "mset (suspensions sched) = mset (yielded ts)"
    and st: "pool_step i (ts, (c, sched)) = (ts1, (c1, sched1))"
  shows "mset (suspensions sched1) = mset (yielded ts1)"
proof (cases "i < length ts")
  case False
  with st inv show ?thesis by simp
next
  case True
  obtain t1 where s1: "step (ts ! i) (c, sched) = (t1, (c1, sched1))" and ts1: "ts1 = ts[i := t1]"
    using st True by (auto split: prod.splits)
  have a: "mset (yielded ts1) + mset (yielded_by (ts ! i)) =
           mset (yielded ts) + mset (yielded_by t1)"
    unfolding yielded_def ts1 by (rule mset_concat_map_update [OF True])
  note d = step_suspensions [OF s1]
  show ?thesis
  proof (rule multiset_eqI)
    fix x
    from a have a': "count (mset (yielded ts1)) x + count (mset (yielded_by (ts ! i))) x =
      count (mset (yielded ts)) x + count (mset (yielded_by t1)) x"
      by (metis count_union)
    from d have d': "count (mset (suspensions sched1)) x + count (mset (yielded_by (ts ! i))) x =
      count (mset (suspensions sched)) x + count (mset (yielded_by t1)) x"
      by (metis count_union)
    from inv have i': "count (mset (suspensions sched)) x = count (mset (yielded ts)) x"
      by simp
    from a' d' i' show "count (mset (suspensions sched1)) x = count (mset (yielded ts1)) x"
      by simp
  qed
qed

lemma run_suspensions:
  "mset (suspensions sched) = mset (yielded ts) \<Longrightarrow>
   run sch (ts, (c, sched)) = (ts1, (c1, sched1)) \<Longrightarrow>
   mset (suspensions sched1) = mset (yielded ts1)"
proof (induction sch arbitrary: ts c sched)
  case Nil
  then show ?case by simp
next
  case (Cons i sch)
  obtain ts' c' sched' where p: "pool_step i (ts, (c, sched)) = (ts', (c', sched'))"
    by (metis prod.exhaust)
  from pool_step_suspensions [OF Cons.prems(1) p] Cons.IH [of sched' ts' c'] Cons.prems(2) p
  show ?case by simp
qed

lemma pool_step_waiting:
  "concat (map waiting_of (fst (pool_step i (ts, w)))) = concat (map waiting_of ts)"
proof (cases "i < length ts")
  case False
  then show ?thesis by simp
next
  case True
  have "map waiting_of (ts[i := fst (step (ts ! i) w)]) = map waiting_of ts"
    using True by (simp add: map_update step_waiting_of list_update_same_conv)
  then show ?thesis using True by (simp add: split_beta)
qed

lemma run_waiting:
  "concat (map waiting_of (fst (run sch p))) = concat (map waiting_of (fst p))"
proof (induction sch arbitrary: p)
  case Nil
  then show ?case by simp
next
  case (Cons i sch)
  show ?case using Cons.IH [of "pool_step i p"] pool_step_waiting [of i "fst p" "snd p"] by simp
qed

lemma waiting_start: "concat (map waiting_of (map start calls)) = waiters calls"
  by (induction calls rule: waiters.induct) simp_all

lemma enqueued_waiting: "mset (enqueued ts) \<subseteq># mset (concat (map waiting_of ts))"
  unfolding enqueued_def
  by (induction ts) (simp_all add: subset_mset.add_mono enqueued_by_waiting)

lemma yielded_enqueued: "mset (yielded ts) \<subseteq># mset (enqueued ts)"
  unfolding enqueued_def yielded_def
  by (induction ts) (simp_all add: subset_mset.add_mono yielded_by_enqueued)

lemma start_not_enqueued [simp]: "enqueued (map start calls) = []"
  unfolding enqueued_def by (induction calls rule: waiters.induct) simp_all

lemma start_not_in_flight [simp]: "in_flight (map start calls) = []"
  unfolding in_flight_def by (induction calls rule: waiters.induct) simp_all

lemma start_not_yielded [simp]: "yielded (map start calls) = []"
  unfolding yielded_def by (induction calls rule: waiters.induct) simp_all

lemma run_append: "run (sch @ sch') p = run sch' (run sch p)"
  by (induction sch arbitrary: p) simp_all

lemma pool_step_sched_grows: "\<exists>ds. snd (snd (pool_step i (ts, (c, sched)))) = sched @ ds"
  using step_sched_grows [of "ts ! i" c sched] by (auto simp: split_beta)

lemma run_sched_grows: "\<exists>ds. snd (snd (run sch (ts, (c, sched)))) = sched @ ds"
proof (induction sch arbitrary: ts c sched)
  case Nil
  then show ?case by simp
next
  case (Cons i sch)
  obtain ts' c' sched' where p: "pool_step i (ts, (c, sched)) = (ts', (c', sched'))"
    by (metis prod.exhaust)
  from pool_step_sched_grows [of i ts c sched] p obtain ds where "sched' = sched @ ds" by auto
  with Cons.IH [of ts' c' sched'] p show ?case by auto
qed

lemma mset_subset_distinct:
  assumes "mset xs \<subseteq># mset ys" and "distinct ys"
  shows "distinct xs"
proof -
  from assms(1) obtain M where "mset ys = mset xs + M"
    by (auto simp: mset_subset_eq_exists_conv)
  moreover obtain zs where "M = mset zs"
    using ex_mset [of M] by auto
  ultimately have "mset ys = mset (xs @ zs)" by simp
  from mset_eq_imp_distinct_iff [OF this] assms(2) show ?thesis by simp
qed

lemma run_spawn_tokens:
  assumes "run sch (spawn calls) = (ts, (c, sched))"
  shows "mset (woken sched) + mset (in_flight ts) + mset (queue c) = mset (enqueued ts)"
  using assms unfolding spawn_def
  by (rule run_tokens [rotated]) (simp add: detail_condition_init_def)

lemma run_spawn_suspensions:
  assumes "run sch (spawn calls) = (ts, (c, sched))"
  shows "mset (suspensions sched) = mset (yielded ts)"
  using assms unfolding spawn_def
  by (rule run_suspensions [rotated]) simp

lemma run_spawn_waiters:
  assumes "run sch (spawn calls) = (ts, w)"
  shows "mset (enqueued ts) \<subseteq># mset (waiters calls)"
proof -
  have "concat (map waiting_of ts) = waiters calls"
    using run_waiting [of sch "spawn calls"] assms by (simp add: spawn_def waiting_start del: map_map)
  with enqueued_waiting [of ts] show ?thesis by simp
qed

text \<open>
  Claim C5: a \<open>wait\<close> first enqueues the caller's id and only then suspends the caller,
  once. The first step of the call puts the id at the back of the queue and asks the
  scheduler for nothing; the second asks the scheduler to suspend the caller and leaves the
  queue alone; there is no third. The two steps are the whole call, which adds one entry
  to the queue and one request to be suspended. In every interleaving of calls on a fresh
  component, the requests to be suspended are those of the threads past their \<open>yield\<close>,
  each of which has enqueued its id before.
\<close>

theorem wait_enqueues_then_suspends:
  "step (Wait_enqueue self) (c, sched) =
     (Wait_yield self, (c\<lparr>queue := queue c @ [get_thread_id self]\<rparr>, sched))
   \<and> step (Wait_yield self) (c, sched) = (Wait_yielded self, (c, sched @ [Yield self suspended]))
   \<and> step (Wait_yielded self) (c, sched) = (Wait_yielded self, (c, sched))
   \<and> steps 2 (start (Wait self)) (c, sched) = (Wait_yielded self, detail_wait self (c, sched))
   \<and> detail_wait self (c, sched) =
       (c\<lparr>queue := queue c @ [get_thread_id self]\<rparr>, sched @ [Yield self suspended])
   \<and> (case run sch (spawn calls) of (ts, (c', sched')) \<Rightarrow>
         mset (suspensions sched') = mset (yielded ts)
         \<and> mset (yielded ts) \<subseteq># mset (enqueued ts))"
proof -
  obtain ts c' sched' where r: "run sch (spawn calls) = (ts, (c', sched'))"
    by (metis prod.exhaust)
  have "steps 2 (start (Wait self)) (c, sched) = (Wait_yielded self, detail_wait self (c, sched))"
    by (simp add: numeral_2_eq_2)
  then show ?thesis
    using run_spawn_suspensions [OF r] yielded_enqueued [of ts] r
    by (simp add: yield_def)
qed

text \<open>
  Claim C6: in every interleaving of \<open>wait\<close> and \<open>notify_one\<close> calls (and of
  \<open>notify_all\<close> calls too) on a fresh component, the tokens woken so far are among the
  tokens enqueued so far, counted with multiplicity, and these among the ids of the threads
  that call \<open>wait\<close>. When no two of the \<open>wait\<close> calls are by the same thread, every
  token is enqueued at most once and woken at most once, and a woken token is not in the
  queue. The tokens woken at one moment stay woken, in the same order, whatever steps
  follow.
\<close>

theorem notified_tokens_enqueued_once:
  "case run sch (spawn calls) of (ts, (c, sched)) \<Rightarrow>
     mset (woken sched) \<subseteq># mset (enqueued ts)
     \<and> mset (enqueued ts) \<subseteq># mset (waiters calls)
     \<and> (distinct (waiters calls) \<longrightarrow>
          distinct (enqueued ts) \<and> distinct (woken sched)
          \<and> set (woken sched) \<inter> set (queue c) = {})
     \<and> prefix (woken sched) (woken (snd (snd (run (sch @ sch') (spawn calls)))))"
proof -
  obtain ts c sched where r: "run sch (spawn calls) = (ts, (c, sched))"
    by (metis prod.exhaust)
  note inv = run_spawn_tokens [OF r]
  have sub: "mset (woken sched) \<subseteq># mset (enqueued ts)"
    by (metis inv union_assoc mset_subset_eq_exists_conv)
  have wq: "mset (woken sched @ queue c) \<subseteq># mset (enqueued ts)"
    using inv by (metis mset_append mset_subset_eq_exists_conv union_assoc union_commute)
  have enq: "mset (enqueued ts) \<subseteq># mset (waiters calls)"
    by (rule run_spawn_waiters [OF r])
  have dist: "distinct (enqueued ts) \<and> distinct (woken sched)
      \<and> set (woken sched) \<inter> set (queue c) = {}" if d: "distinct (waiters calls)"
  proof -
    have de: "distinct (enqueued ts)" by (rule mset_subset_distinct [OF enq d])
    from mset_subset_distinct [OF wq de] have "distinct (woken sched @ queue c)" .
    with de show ?thesis by simp
  qed
  have pre: "prefix (woken sched) (woken (snd (snd (run (sch @ sch') (spawn calls)))))"
    using run_sched_grows [of sch' ts c sched] r by (auto simp: run_append)
  show ?thesis using sub enq dist pre by (simp add: r)
qed

text \<open>
  The theorem at work: the threads 1 and 2 wait, the threads 8 and 9 call \<open>notify_one\<close>,
  and the steps of the four calls are interleaved.
\<close>

theorem notified_tokens_enqueued_once_witness:
  "distinct (waiters [Wait \<lparr>get_thread_id = 1\<rparr>, Notify_one \<lparr>get_thread_id = 8\<rparr>,
                      Wait \<lparr>get_thread_id = 2\<rparr>, Notify_one \<lparr>get_thread_id = 9\<rparr>])
   \<and> run [0, 1, 2, 3, 1, 0, 3, 2]
         (spawn [Wait \<lparr>get_thread_id = 1\<rparr>, Notify_one \<lparr>get_thread_id = 8\<rparr>,
                 Wait \<lparr>get_thread_id = 2\<rparr>, Notify_one \<lparr>get_thread_id = 9\<rparr>]) =
       ([Wait_yielded \<lparr>get_thread_id = 1\<rparr>, Notify_one_return \<lparr>get_thread_id = 8\<rparr>,
         Wait_yielded \<lparr>get_thread_id = 2\<rparr>, Notify_one_return \<lparr>get_thread_id = 9\<rparr>],
        (\<lparr>queue = []\<rparr>,
         [Set_state \<lparr>get_thread_id = 8\<rparr> 1 pending, Yield \<lparr>get_thread_id = 1\<rparr> suspended,
          Set_state \<lparr>get_thread_id = 9\<rparr> 2 pending, Yield \<lparr>get_thread_id = 2\<rparr> suspended]))
   \<and> distinct (woken
         [Set_state \<lparr>get_thread_id = 8\<rparr> 1 pending, Yield \<lparr>get_thread_id = 1\<rparr> suspended,
          Set_state \<lparr>get_thread_id = 9\<rparr> 2 pending, Yield \<lparr>get_thread_id = 2\<rparr> suspended])"
proof -
  let ?calls = "[Wait \<lparr>get_thread_id = 1\<rparr>, Notify_one \<lparr>get_thread_id = 8\<rparr>,
                 Wait \<lparr>get_thread_id = 2\<rparr>, Notify_one \<lparr>get_thread_id = 9\<rparr>]"
  have d: "distinct (waiters ?calls)" by simp
  have r: "run [0, 1, 2, 3, 1, 0, 3, 2] (spawn ?calls) =
       ([Wait_yielded \<lparr>get_thread_id = 1\<rparr>, Notify_one_return \<lparr>get_thread_id = 8\<rparr>,
         Wait_yielded \<lparr>get_thread_id = 2\<rparr>, Notify_one_return \<lparr>get_thread_id = 9\<rparr>],
        (\<lparr>queue = []\<rparr>,
         [Set_state \<lparr>get_thread_id = 8\<rparr> 1 pending, Yield \<lparr>get_thread_id = 1\<rparr> suspended,
          Set_state \<lparr>get_thread_id = 9\<rparr> 2 pending, Yield \<lparr>get_thread_id = 2\<rparr> suspended]))"
    by (simp add: spawn_def detail_condition_init_def yield_def set_state_def)
  from notified_tokens_enqueued_once
    [where sch = "[0, 1, 2, 3, 1, 0, 3, 2]" and calls = ?calls and sch' = "[]"] d r
  show ?thesis by simp
qed

subsection \<open>\<open>notify_all\<close> with a concurrent \<open>wait\<close>\<close>

text \<open>
  Claim C2 says that \<open>notify_all\<close> captures the whole queue in one indivisible step, so
  that a \<open>wait\<close> that enqueues after the capture is not woken by that call. The
  component's \<open>notify_all\<close> has no such step: it dequeues one id at a time until a
  \<open>dequeue\<close> fails. Thread 1 is queued; thread 9 calls \<open>notify_all\<close> and thread 2 calls
  \<open>wait\<close>. Thread 9 dequeues 1 and wakes it, thread 2 then enqueues itself and suspends,
  and thread 9 goes on to dequeue 2 and wake it before its loop ends. The second part gives
  the contents of the queue before each step and at the end: at no moment does the queue
  hold both 1 and 2, the two threads that this one call wakes.
\<close>

theorem notify_all_wakes_later_waiter:
  "run [0, 0, 1, 1, 0, 0, 0]
     (map start [Notify_all \<lparr>get_thread_id = 9\<rparr>, Wait \<lparr>get_thread_id = 2\<rparr>],
      detail_wait \<lparr>get_thread_id = 1\<rparr> (detail_condition_init, [])) =
   ([Notify_all_return \<lparr>get_thread_id = 9\<rparr>, Wait_yielded \<lparr>get_thread_id = 2\<rparr>],
    (\<lparr>queue = []\<rparr>,
     [Yield \<lparr>get_thread_id = 1\<rparr> suspended, Set_state \<lparr>get_thread_id = 9\<rparr> 1 pending,
      Yield \<lparr>get_thread_id = 2\<rparr> suspended, Set_state \<lparr>get_thread_id = 9\<rparr> 2 pending]))
   \<and> map (\<lambda>k. queue (fst (snd (run (take k [0, 0, 1, 1, 0, 0, 0])
              (map start [Notify_all \<lparr>get_thread_id = 9\<rparr>, Wait \<lparr>get_thread_id = 2\<rparr>],
               detail_wait \<lparr>get_thread_id = 1\<rparr> (detail_condition_init, []))))))
         [0, 1, 2, 3, 4, 5, 6, 7] =
       [[1], [], [], [2], [2], [], [], []]"
  by (simp add: detail_condition_init_def yield_def set_state_def)

subsection \<open>Each token at most once in the queue\<close>

lemma suspended_threads_snoc [simp]:
  "suspended_threads (sched @ [r]) = request r (suspended_threads sched)"
  by (simp add: suspended_threads_def)

lemma perform_unique:
  assumes "distinct (queue c)" and "set (queue c) \<subseteq> suspended_threads sched"
    and "get_thread_id (caller k) \<notin> suspended_threads sched"
    and "perform k (c, sched) = (c1, sched1)"
  shows "distinct (queue c1) \<and> set (queue c1) \<subseteq> suspended_threads sched1"
proof (cases k)
  case (Wait self)
  with assms show ?thesis by (auto simp: yield_def)
next
  case (Notify_one self)
  with assms show ?thesis by (cases "queue c") (auto simp: set_state_def)
next
  case (Notify_all self)
  with assms show ?thesis by (auto simp: notify_all_loop_eq)
qed

lemma run_calls_unique:
  "distinct (queue c) \<Longrightarrow> set (queue c) \<subseteq> suspended_threads sched \<Longrightarrow>
   run_calls ks (c, sched) = Some (c1, sched1) \<Longrightarrow>
   distinct (queue c1) \<and> set (queue c1) \<subseteq> suspended_threads sched1"
proof (induction ks arbitrary: c sched)
  case Nil
  then show ?case by simp
next
  case (Cons k ks)
  from Cons.prems(3) have run: "get_thread_id (caller k) \<notin> suspended_threads sched"
    by (auto split: if_splits)
  obtain c' sched' where p: "perform k (c, sched) = (c', sched')"
    by (metis prod.exhaust)
  from perform_unique [OF Cons.prems(1,2) run p]
  have "distinct (queue c')" and "set (queue c') \<subseteq> suspended_threads sched'" by simp_all
  from Cons.IH [OF this] Cons.prems(3) run p show ?case by simp
qed

text \<open>
  Claim C7: in every state reached from a fresh component by \<open>wait\<close>, \<open>notify_one\<close>
  and \<open>notify_all\<close> calls, no id is in the queue twice. \<open>wait\<close> does not look for the
  caller's id in the queue before it enqueues; the ids stay distinct because every queued
  thread is suspended and a suspended thread makes no call.
\<close>

theorem queue_tokens_unique:
  "run_calls ks (detail_condition_init, []) = Some (c, sched) \<Longrightarrow> distinct (queue c)"
  using run_calls_unique [of detail_condition_init "[]" ks c sched]
  by (simp add: detail_condition_init_def suspended_threads_def)

text \<open>
  The theorem at work: thread 1 waits, is woken, and waits again behind thread 2.
\<close>

theorem queue_tokens_unique_witness:
  "run_calls [Wait \<lparr>get_thread_id = 1\<rparr>, Wait \<lparr>get_thread_id = 2\<rparr>,
              Notify_one \<lparr>get_thread_id = 3\<rparr>, Wait \<lparr>get_thread_id = 1\<rparr>]
     (detail_condition_init, []) =
   Some (\<lparr>queue = [2, 1]\<rparr>,
         [Yield \<lparr>get_thread_id = 1\<rparr> suspended, Yield \<lparr>get_thread_id = 2\<rparr> suspended,
          Set_state \<lparr>get_thread_id = 3\<rparr> 1 pending, Yield \<lparr>get_thread_id = 1\<rparr> suspended])
   \<and> distinct (queue \<lparr>queue = [2, 1]\<rparr>)"
proof -
  have r: "run_calls [Wait \<lparr>get_thread_id = 1\<rparr>, Wait \<lparr>get_thread_id = 2\<rparr>,
              Notify_one \<lparr>get_thread_id = 3\<rparr>, Wait \<lparr>get_thread_id = 1\<rparr>]
     (detail_condition_init, []) =
   Some (\<lparr>queue = [2, 1]\<rparr>,
         [Yield \<lparr>get_thread_id = 1\<rparr> suspended, Yield \<lparr>get_thread_id = 2\<rparr> suspended,
          Set_state \<lparr>get_thread_id = 3\<rparr> 1 pending, Yield \<lparr>get_thread_id = 1\<rparr> suspended])"
    by (simp add: detail_condition_init_def yield_def set_state_def suspended_threads_def)
  from queue_tokens_unique [OF r] r show ?thesis by simp
qed

text \<open>A second \<open>wait\<close> by a thread that is still queued is not a sequence of calls.\<close>

lemma wait_by_queued_thread_excluded:
  "run_calls [Wait a, Wait a] (detail_condition_init, []) = None"
  by (simp add: detail_condition_init_def yield_def suspended_threads_def)

end
